theory Spec2Isabelle
  imports Main "HOL-Library.Word"
begin

unbundle bit_operations_syntax

section \<open>Bitcoin address validation (bitcoinaddress/validation.py)\<close>

text \<open>
  A shallow embedding of \<^verbatim>\<open>src/bitcoinaddress/validation.py\<close>.

  The module is written for two kinds of interpreter: it first tries the
  integer methods \<^verbatim>\<open>to_bytes\<close> and \<^verbatim>\<open>from_bytes\<close> and, on
  \<^verbatim>\<open>AttributeError\<close>, falls back to its own helpers, commented
  "Python version < 3.2". The unicode literal in \<^verbatim>\<open>decode_base58\<close> is a syntax
  error on Python 3.0 to 3.2, so the module loads on Python 2, where the fallback runs and
  \<^verbatim>\<open>str\<close> is a byte string, and on Python 3.3 or later, where the integer
  methods exist and \<^verbatim>\<open>bytes\<close> is a type apart from \<^verbatim>\<open>str\<close>.
  The interpreter is a parameter of every function whose behaviour depends on it.
\<close>

datatype runtime = Py2 | Py3

datatype py_error = ValueError | OverflowError | TypeError | IndexError

text \<open>
  What a call does: it returns a value, raises an exception, or never returns.
\<close>

datatype 'a outcome = Returns 'a | Raises py_error | Diverges

type_synonym byte = "8 word"

subsection \<open>Strings\<close>

definition digits58 :: string where
  "digits58 = ''123456789ABCDEFGHJKLMNPQRSTUVWXYZabcdefghijkmnopqrstuvwxyz''"

definition CHARSET :: string where
  "CHARSET = ''qpzry9x8gf2tvdw0s3jn54khce6mua7l''"

text \<open>\<^verbatim>\<open>s.index(c)\<close> for a one-character \<open>c\<close>: the first position, or ValueError
  (here \<open>None\<close>).\<close>

fun str_index :: "string \<Rightarrow> char \<Rightarrow> nat option" where
  "str_index [] c = None"
| "str_index (x # xs) c =
     (if x = c then Some 0
      else (case str_index xs c of None \<Rightarrow> None | Some i \<Rightarrow> Some (Suc i)))"

subsection \<open>Integers and byte strings\<close>

text \<open>
  The base58 numeral starts at 0 and only grows by \<open>n * 58 + digit\<close>, and the integer read
  from a byte string is a sum of shifted bytes: neither is ever negative, so both are
  natural numbers here.

  \<^verbatim>\<open>_bytes_to_long\<close> and \<^verbatim>\<open>_long_to_bytes\<close>: the byte order is
  little-endian for the string \<^verbatim>\<open>'little'\<close> and big-endian for anything else.
\<close>

definition bytes_to_long :: "byte list \<Rightarrow> string \<Rightarrow> nat" where
  "bytes_to_long bytestring byteorder =
     (let src = (if byteorder = ''little'' then bytestring else rev bytestring)
      in sum_list (map (\<lambda>(i, v). push_bit (i * 8) (unat v)) (enumerate 0 src)))"

definition long_to_bytes :: "nat \<Rightarrow> nat \<Rightarrow> string \<Rightarrow> byte list" where
  "long_to_bytes n len byteorder =
     (let indexes = (if byteorder = ''little'' then [0..<len] else rev [0..<len])
      in map (\<lambda>i. of_nat (drop_bit (i * 8) n AND 255)) indexes)"

text \<open>
  The built-in \<^verbatim>\<open>n.to_bytes(length, 'big')\<close> of Python 3: OverflowError
  ("int too big to convert") when \<open>n\<close> does not fit in \<open>length\<close> bytes, otherwise the
  base-256 digits of \<open>n\<close>, most significant first.
\<close>

fun be_digits :: "nat \<Rightarrow> nat \<Rightarrow> byte list" where
  "be_digits 0 n = []"
| "be_digits (Suc k) n = be_digits k (n div 256) @ [of_nat (n mod 256)]"

definition int_to_bytes :: "nat \<Rightarrow> nat \<Rightarrow> byte list outcome" where
  "int_to_bytes n len =
     (if 256 ^ len \<le> n then Raises OverflowError else Returns (be_digits len n))"

text \<open>The built-in \<^verbatim>\<open>int.from_bytes(b, 'big')\<close> of Python 3.\<close>

definition int_from_bytes :: "byte list \<Rightarrow> nat" where
  "int_from_bytes bytestring = foldl (\<lambda>a b. a * 256 + unat b) 0 bytestring"

subsection \<open>Base58\<close>

text \<open>
  The loop of \<^verbatim>\<open>decode_base58\<close>: a character that is not a base58 digit makes
  \<^verbatim>\<open>index\<close> raise, and the handler raises ValueError.
\<close>

fun decode_loop :: "nat \<Rightarrow> string \<Rightarrow> nat outcome" where
  "decode_loop n [] = Returns n"
| "decode_loop n (c # cs) =
     (case str_index digits58 c of
        None \<Rightarrow> Raises ValueError
      | Some d \<Rightarrow> decode_loop (n * 58 + d) cs)"

definition decode_base58 :: "runtime \<Rightarrow> string \<Rightarrow> nat \<Rightarrow> byte list outcome" where
  "decode_base58 rt bitcoin_address len =
     (case decode_loop 0 bitcoin_address of
        Raises e \<Rightarrow> Raises e
      | Diverges \<Rightarrow> Diverges
      | Returns n \<Rightarrow>
          (case rt of
             Py3 \<Rightarrow> int_to_bytes n len
           | Py2 \<Rightarrow> Returns (long_to_bytes n len ''big'')))"

text \<open>
  The digit loop of \<^verbatim>\<open>encode_base58\<close>, entered with the quotient and remainder
  of the first \<^verbatim>\<open>divmod\<close>. The remainder is always below 58, the length of the
  alphabet.
\<close>

function encode_loop :: "nat \<Rightarrow> nat \<Rightarrow> string \<Rightarrow> string" where
  "encode_loop n rest result =
     (if 0 < n \<or> 0 < rest
      then encode_loop (n div 58) (n mod 58) (result @ [digits58 ! rest])
      else result)"
  by pat_completeness auto
termination
  by (relation "measure (\<lambda>(n, rest, result). 2 * n + (if rest = 0 then 0 else 1))") auto

declare encode_loop.simps [simp del]

definition encode_base58 :: "runtime \<Rightarrow> byte list \<Rightarrow> string" where
  "encode_base58 rt bytestring =
     (let zeros = length (takeWhile (\<lambda>b. b = 0) bytestring);
          n = (case rt of
                 Py3 \<Rightarrow> int_from_bytes bytestring
               | Py2 \<Rightarrow> bytes_to_long bytestring ''big'')
      in replicate zeros (CHR ''1'') @ rev (encode_loop (n div 58) (n mod 58) []))"

subsection \<open>Base58 validation\<close>

text \<open>
  \<^verbatim>\<open>bcbytes.startswith(chr(int(mb)))\<close>. On Python 2 \<^verbatim>\<open>chr\<close> gives a
  one-byte string (ValueError for an argument outside \<open>range(256)\<close>) and the byte array is
  compared with it. On Python 3 \<^verbatim>\<open>chr\<close> gives a \<^verbatim>\<open>str\<close> (ValueError
  beyond code point 0x10ffff) and \<^verbatim>\<open>bytes.startswith\<close> refuses it with
  TypeError.
\<close>

definition startswith_chr :: "runtime \<Rightarrow> byte list \<Rightarrow> nat \<Rightarrow> bool outcome" where
  "startswith_chr rt bcbytes mb =
     (case rt of
        Py3 \<Rightarrow> (if 1114112 \<le> mb then Raises ValueError else Raises TypeError)
      | Py2 \<Rightarrow>
          (if 256 \<le> mb then Raises ValueError
           else Returns (case bcbytes of [] \<Rightarrow> False | b # bs \<Rightarrow> unat b = mb)))"

text \<open>The \<^verbatim>\<open>for ... else\<close> over the magic bytes: \<open>True\<close> for \<^verbatim>\<open>break\<close>,
  \<open>False\<close> when the loop runs out (the \<^verbatim>\<open>else\<close> branch, which returns False).\<close>

fun magic_loop :: "runtime \<Rightarrow> byte list \<Rightarrow> nat list \<Rightarrow> bool outcome" where
  "magic_loop rt bcbytes [] = Returns False"
| "magic_loop rt bcbytes (mb # mbs) =
     (case startswith_chr rt bcbytes mb of
        Raises e \<Rightarrow> Raises e
      | Diverges \<Rightarrow> Diverges
      | Returns found \<Rightarrow> (if found then Returns True else magic_loop rt bcbytes mbs))"

text \<open>
  \<^verbatim>\<open>validate_base58\<close>. The hash function of \<^verbatim>\<open>hashlib\<close> is a parameter
  (\<open>sha256 b\<close> stands for \<^verbatim>\<open>sha256(b).digest()\<close>). Only ValueError is caught
  around the decoding.
\<close>

definition validate_base58 ::
  "runtime \<Rightarrow> (byte list \<Rightarrow> byte list) \<Rightarrow> string \<Rightarrow> nat list \<Rightarrow> bool outcome" where
  "validate_base58 rt sha256 bitcoin_address magicbyte =
     (let clen = length bitcoin_address in
      if clen < 27 \<or> 35 < clen then Returns False
      else
        (case decode_base58 rt bitcoin_address 25 of
           Raises e \<Rightarrow> (if e = ValueError then Returns False else Raises e)
         | Diverges \<Rightarrow> Diverges
         | Returns bcbytes \<Rightarrow>
             (case magic_loop rt bcbytes magicbyte of
                Raises e \<Rightarrow> Raises e
              | Diverges \<Rightarrow> Diverges
              | Returns found \<Rightarrow>
                  (if found then
                     (let checksum =
                            take 4 (sha256 (sha256 (take (length bcbytes - 4) bcbytes)))
                      in if drop (length bcbytes - 4) bcbytes \<noteq> checksum then Returns False
                         else Returns (bitcoin_address = encode_base58 rt bcbytes))
                   else Returns False))))"

subsection \<open>Bech32\<close>

definition py_ord :: "char \<Rightarrow> int" where
  "py_ord c = of_char c"

text \<open>
  \<^verbatim>\<open>lower\<close> and \<^verbatim>\<open>upper\<close> on the ASCII letters. (Python 3 also maps letters
  beyond ASCII; \<^verbatim>\<open>bech32_decode\<close> has rejected such a string before the case of
  its characters matters.)
\<close>

definition lower_char :: "char \<Rightarrow> char" where
  "lower_char c =
     (let n = (of_char c :: nat) in if 65 \<le> n \<and> n \<le> 90 then char_of (n + 32) else c)"

definition upper_char :: "char \<Rightarrow> char" where
  "upper_char c =
     (let n = (of_char c :: nat) in if 97 \<le> n \<and> n \<le> 122 then char_of (n - 32) else c)"

definition str_lower :: "string \<Rightarrow> string" where
  "str_lower s = map lower_char s"

definition str_upper :: "string \<Rightarrow> string" where
  "str_upper s = map upper_char s"

text \<open>\<^verbatim>\<open>s.find(c)\<close> and \<^verbatim>\<open>s.rfind(c)\<close>: the first and the last position of
  a character, or \<open>-1\<close>.\<close>

definition str_find :: "string \<Rightarrow> char \<Rightarrow> int" where
  "str_find s c = (case str_index s c of None \<Rightarrow> - 1 | Some i \<Rightarrow> int i)"

definition str_rfind :: "string \<Rightarrow> char \<Rightarrow> int" where
  "str_rfind s c =
     (case str_index (rev s) c of
        None \<Rightarrow> - 1
      | Some i \<Rightarrow> int (length s) - 1 - int i)"

definition generator :: "int list" where
  "generator = [0x3b6a57b2, 0x26508e6d, 0x1ea119fa, 0x3d4233dd, 0x2a1462b3]"

text \<open>One round of the loop of \<^verbatim>\<open>bech32_polymod\<close>.\<close>

definition polymod_step :: "int \<Rightarrow> int \<Rightarrow> int" where
  "polymod_step chk v =
     (let top = drop_bit 25 chk;
          chk1 = push_bit 5 (chk AND 0x1ffffff) XOR v
      in foldl (\<lambda>c i. c XOR (if drop_bit i top AND 1 \<noteq> 0 then generator ! i else 0))
           chk1 [0..<5])"

definition bech32_polymod :: "int list \<Rightarrow> int" where
  "bech32_polymod values = foldl polymod_step 1 values"

definition bech32_hrp_expand :: "string \<Rightarrow> int list" where
  "bech32_hrp_expand hrp =
     map (\<lambda>x. drop_bit 5 (py_ord x)) hrp @ [0] @ map (\<lambda>x. py_ord x AND 31) hrp"

definition bech32_verify_checksum :: "string \<Rightarrow> int list \<Rightarrow> bool" where
  "bech32_verify_checksum hrp data = (bech32_polymod (bech32_hrp_expand hrp @ data) = 1)"

text \<open>\<^verbatim>\<open>bech32_decode\<close> returns a pair, \<^verbatim>\<open>(None, None)\<close> on every failure.\<close>

definition bech32_decode :: "string \<Rightarrow> string option \<times> int list option" where
  "bech32_decode bech0 =
     (if list_ex (\<lambda>x. py_ord x < 33 \<or> 126 < py_ord x) bech0
         \<or> (str_lower bech0 \<noteq> bech0 \<and> str_upper bech0 \<noteq> bech0)
      then (None, None)
      else
        (let bech = str_lower bech0;
             pos = str_rfind bech (CHR ''1'')
         in if pos < 1 \<or> int (length bech) < pos + 7 \<or> 90 < length bech then (None, None)
            else if list_ex (\<lambda>x. x \<notin> set CHARSET) (drop (nat (pos + 1)) bech)
            then (None, None)
            else
              (let hrp = take (nat pos) bech;
                   data = map (str_find CHARSET) (drop (nat (pos + 1)) bech)
               in if bech32_verify_checksum hrp data
                  then (Some hrp, Some (take (length data - 6) data))
                  else (None, None))))"

text \<open>
  The inner \<^verbatim>\<open>while bits >= tobits\<close> of \<^verbatim>\<open>convertbits\<close>. For
  \<open>tobits = 0\<close> its condition never fails, so it is a partial function: \<open>None\<close> is
  "does not return".
\<close>

partial_function (option) convertbits_while ::
  "nat \<Rightarrow> int \<Rightarrow> int \<Rightarrow> nat \<Rightarrow> int list \<Rightarrow> (nat \<times> int list) option" where
  "convertbits_while tobits maxv acc bits ret =
     (if tobits \<le> bits
      then convertbits_while tobits maxv acc (bits - tobits)
             (ret @ [drop_bit (bits - tobits) acc AND maxv])
      else Some (bits, ret))"

declare convertbits_while.simps [code]

text \<open>The \<^verbatim>\<open>for value in data\<close> loop; \<open>Returns None\<close> is the early
  \<^verbatim>\<open>return None\<close>.\<close>

fun convertbits_for ::
  "nat \<Rightarrow> nat \<Rightarrow> int \<Rightarrow> nat \<Rightarrow> int list \<Rightarrow> int list
     \<Rightarrow> (int \<times> nat \<times> int list) option outcome" where
  "convertbits_for frombits tobits acc bits ret [] = Returns (Some (acc, bits, ret))"
| "convertbits_for frombits tobits acc bits ret (v # vs) =
     (if v < 0 \<or> drop_bit frombits v \<noteq> 0 then Returns None
      else
        (let maxv = push_bit tobits 1 - 1;
             max_acc = push_bit (frombits + tobits - 1) 1 - 1;
             acc1 = (push_bit frombits acc OR v) AND max_acc
         in case convertbits_while tobits maxv acc1 (bits + frombits) ret of
              None \<Rightarrow> Diverges
            | Some (bits1, ret1) \<Rightarrow> convertbits_for frombits tobits acc1 bits1 ret1 vs))"

text \<open>
  \<^verbatim>\<open>convertbits\<close>. The widths are natural numbers; with both 0 the shift
  \<^verbatim>\<open>1 << (frombits + tobits - 1)\<close> has a negative count and raises ValueError.
\<close>

definition convertbits :: "int list \<Rightarrow> nat \<Rightarrow> nat \<Rightarrow> bool \<Rightarrow> int list option outcome" where
  "convertbits data frombits tobits pad =
     (if frombits + tobits = 0 then Raises ValueError
      else
        (case convertbits_for frombits tobits 0 0 [] data of
           Raises e \<Rightarrow> Raises e
         | Diverges \<Rightarrow> Diverges
         | Returns None \<Rightarrow> Returns None
         | Returns (Some (acc, bits, ret)) \<Rightarrow>
             (let maxv = push_bit tobits 1 - 1 in
              if pad then
                (if 0 < bits then Returns (Some (ret @ [push_bit (tobits - bits) acc AND maxv]))
                 else Returns (Some ret))
              else if frombits \<le> bits \<or> push_bit (tobits - bits) acc AND maxv \<noteq> 0
              then Returns None
              else Returns (Some ret))))"

text \<open>
  \<^verbatim>\<open>decode\<close>. Slicing \<^verbatim>\<open>None\<close> raises TypeError and \<^verbatim>\<open>data[0]\<close>
  of an empty list raises IndexError; both are branches here.
\<close>

definition decode :: "string \<Rightarrow> string \<Rightarrow> (int option \<times> int list option) outcome" where
  "decode hrp addr =
     (let (hrpgot, data) = bech32_decode addr in
      if hrpgot \<noteq> Some hrp then Returns (None, None)
      else
        (case data of
           None \<Rightarrow> Raises TypeError
         | Some d \<Rightarrow>
             (case convertbits (drop 1 d) 5 8 False of
                Raises e \<Rightarrow> Raises e
              | Diverges \<Rightarrow> Diverges
              | Returns None \<Rightarrow> Returns (None, None)
              | Returns (Some decoded) \<Rightarrow>
                  (if length decoded < 2 \<or> 40 < length decoded then Returns (None, None)
                   else
                     (case d of
                        [] \<Rightarrow> Raises IndexError
                      | d0 # ds \<Rightarrow>
                          (if 16 < d0 then Returns (None, None)
                           else if d0 = 0 \<and> length decoded \<noteq> 20 \<and> length decoded \<noteq> 32
                           then Returns (None, None)
                           else Returns (Some d0, Some decoded)))))))"

definition validate_bech32 :: "string \<Rightarrow> string \<Rightarrow> bool outcome" where
  "validate_bech32 bitcoin_address hrp =
     (case decode hrp bitcoin_address of
        Raises e \<Rightarrow> Raises e
      | Diverges \<Rightarrow> Diverges
      | Returns r \<Rightarrow> Returns (fst r \<noteq> None))"

subsection \<open>The entry point\<close>

definition validate ::
  "runtime \<Rightarrow> (byte list \<Rightarrow> byte list) \<Rightarrow> string \<Rightarrow> bool \<Rightarrow> bool outcome" where
  "validate rt sha256 bitcoin_address testnet =
     (let (magicbyte, bech32_hrp) =
            (if testnet then ([111, 196], ''tb'') else ([0, 5], ''bc''))
      in if str_lower (take 2 bitcoin_address) = bech32_hrp
         then validate_bech32 bitcoin_address bech32_hrp
         else validate_base58 rt sha256 bitcoin_address magicbyte)"

subsection \<open>Vocabulary of the properties\<close>

text \<open>The ASCII capital and small letters.\<close>

definition is_upper :: "char \<Rightarrow> bool" where
  "is_upper c = (65 \<le> (of_char c :: nat) \<and> (of_char c :: nat) \<le> 90)"

definition is_lower :: "char \<Rightarrow> bool" where
  "is_lower c = (97 \<le> (of_char c :: nat) \<and> (of_char c :: nat) \<le> 122)"

text \<open>
  The vocabulary of the regrouping done by \<^verbatim>\<open>convertbits\<close>: a value fits in
  \<open>frombits\<close> bits; the integer whose binary digits are the values of \<open>data\<close> one after
  the other, each \<open>frombits\<close> wide; the full groups of \<open>tobits\<close> bits of a string of
  \<open>len\<close> bits, from the top; and the last, partial group, shifted left to fill \<open>tobits\<close>
  bits.
\<close>

definition fits :: "nat \<Rightarrow> int \<Rightarrow> bool" where
  "fits frombits v = (0 \<le> v \<and> v < 2 ^ frombits)"

definition bits_value :: "nat \<Rightarrow> int list \<Rightarrow> int" where
  "bits_value frombits data = foldl (\<lambda>a v. a * 2 ^ frombits + v) 0 data"

definition regrouped :: "nat \<Rightarrow> nat \<Rightarrow> int \<Rightarrow> int list" where
  "regrouped tobits len T =
     map (\<lambda>k. take_bit tobits (drop_bit (len - (k + 1) * tobits) T)) [0..<len div tobits]"

definition final_group :: "nat \<Rightarrow> nat \<Rightarrow> int \<Rightarrow> int" where
  "final_group tobits len T = take_bit tobits (push_bit (tobits - len mod tobits) T)"

section \<open>Properties\<close>

lemma int_from_bytes_zeros: "int_from_bytes (replicate k 0) = 0"
proof -
  have "foldl (\<lambda>a b. a * 256 + unat b) 0 (replicate k (0::byte)) = 0"
    by (induction k) simp_all
  then show ?thesis by (simp add: int_from_bytes_def)
qed

lemma bytes_to_long_zeros: "bytes_to_long (replicate k 0) bo = 0"
proof -
  have "\<forall>p \<in> set (enumerate 0 (replicate k (0::byte))). snd p = 0"
    by (auto simp: in_set_enumerate_eq)
  then have "\<forall>p \<in> set (enumerate 0 (replicate k (0::byte))).
      (\<lambda>(i, v). push_bit (i * 8) (unat v)) p = (0::nat)"
    by (auto simp: case_prod_beta)
  then have "sum_list (map (\<lambda>(i, v). push_bit (i * 8) (unat v))
      (enumerate 0 (replicate k (0::byte)))) = (0::nat)"
    by (simp add: sum_list_eq_0_iff del: set_replicate)
  then show ?thesis by (simp add: bytes_to_long_def)
qed

text \<open>
  C9. For every count \<open>k\<close>, \<^verbatim>\<open>encode_base58\<close> of \<open>k\<close> zero bytes is the string of
  \<open>k\<close> characters \<^verbatim>\<open>'1'\<close>, on either interpreter; for \<open>k = 0\<close> the empty byte string
  gives the empty string.
\<close>

theorem encode_base58_zero_bytes:
  "encode_base58 rt (replicate k 0) = replicate k (CHR ''1'')
   \<and> encode_base58 rt [] = []"
proof -
  have n0: "(case rt of Py3 \<Rightarrow> int_from_bytes (replicate j 0)
                     | Py2 \<Rightarrow> bytes_to_long (replicate j 0) ''big'') = 0" for j
    by (cases rt) (simp_all add: int_from_bytes_zeros bytes_to_long_zeros)
  have loop0: "encode_loop 0 0 [] = []"
    by (subst encode_loop.simps) simp
  have "encode_base58 rt (replicate j 0) = replicate j (CHR ''1'')" for j
    unfolding encode_base58_def Let_def n0 by (simp add: loop0)
  from this [of k] this [of 0] show ?thesis by simp
qed

lemma convertbits_nil: "convertbits [] 5 8 False = Returns (Some [])"
  by (simp add: convertbits_def)

lemma lower_char_fix: "lower_char c = c \<longleftrightarrow> \<not> is_upper c"
proof (cases "is_upper c")
  case True
  then have "(of_char (lower_char c) :: nat) = of_char c + 32"
    by (simp add: lower_char_def is_upper_def Let_def)
  then have "lower_char c \<noteq> c" by auto
  with True show ?thesis by simp
next
  case False
  then show ?thesis by (auto simp: lower_char_def is_upper_def Let_def)
qed

lemma of_char_upper_char:
  "(of_char (upper_char c) :: nat) = (if is_lower c then of_char c - 32 else of_char c)"
proof (cases "is_lower c")
  case True
  then have "(of_char c :: nat) - 32 < 256" unfolding is_lower_def by arith
  with True show ?thesis by (simp add: upper_char_def is_lower_def Let_def)
next
  case False
  then show ?thesis by (auto simp: upper_char_def is_lower_def Let_def)
qed

lemma upper_char_fix: "upper_char c = c \<longleftrightarrow> \<not> is_lower c"
proof (cases "is_lower c")
  case True
  then have "(of_char (upper_char c) :: nat) \<noteq> of_char c"
    unfolding of_char_upper_char is_lower_def by simp arith
  then have "upper_char c \<noteq> c" by auto
  with True show ?thesis by simp
next
  case False
  then show ?thesis by (auto simp: upper_char_def is_lower_def Let_def)
qed

lemma of_char_lower_char:
  "(of_char (lower_char c) :: nat) = (if is_upper c then of_char c + 32 else of_char c)"
  by (simp add: lower_char_def is_upper_def Let_def)

lemma is_upper_upper_char: "is_upper (upper_char c) \<longleftrightarrow> is_upper c \<or> is_lower c"
  by (auto simp: is_upper_def of_char_upper_char is_lower_def)

lemma is_lower_upper_char: "\<not> is_lower (upper_char c)"
  by (auto simp: is_upper_def of_char_upper_char is_lower_def)

lemma is_upper_lower_char: "\<not> is_upper (lower_char c)"
  by (auto simp: is_upper_def of_char_lower_char is_lower_def)

lemma lower_upper_char: "lower_char (upper_char c) = lower_char c"
  by (rule of_char_eqI [where ?'a = nat])
    (auto simp: of_char_lower_char is_upper_upper_char of_char_upper_char is_upper_def is_lower_def)

lemma str_lower_fix: "str_lower s = s \<longleftrightarrow> \<not> list_ex is_upper s"
  by (induction s) (simp_all add: str_lower_def lower_char_fix)

lemma str_upper_fix: "str_upper s = s \<longleftrightarrow> \<not> list_ex is_lower s"
  by (induction s) (simp_all add: str_upper_def upper_char_fix)

lemma str_lower_upper: "str_lower (str_upper s) = str_lower s"
  by (simp add: str_lower_def str_upper_def lower_upper_char)

lemma str_lower_lower: "str_lower (str_lower s) = str_lower s"
  by (simp add: str_lower_fix) (simp add: str_lower_def list_ex_iff is_upper_lower_char)

lemma str_upper_upper: "str_upper (str_upper s) = str_upper s"
  by (simp add: str_upper_fix) (simp add: str_upper_def list_ex_iff is_lower_upper_char)

lemma py_ord_range_upper:
  "(py_ord (upper_char c) < 33 \<or> 126 < py_ord (upper_char c)) \<longleftrightarrow> (py_ord c < 33 \<or> 126 < py_ord c)"
proof -
  have "py_ord x = int (of_char x)" for x by (simp add: py_ord_def of_nat_of_char)
  then show ?thesis by (auto simp: of_char_upper_char is_lower_def)
qed

lemma py_ord_range_lower:
  "(py_ord (lower_char c) < 33 \<or> 126 < py_ord (lower_char c)) \<longleftrightarrow> (py_ord c < 33 \<or> 126 < py_ord c)"
proof -
  have "py_ord x = int (of_char x)" for x by (simp add: py_ord_def of_nat_of_char)
  then show ?thesis by (auto simp: of_char_lower_char is_upper_def)
qed

lemma range_str_upper:
  "list_ex (\<lambda>x. py_ord x < 33 \<or> 126 < py_ord x) (str_upper s)
     = list_ex (\<lambda>x. py_ord x < 33 \<or> 126 < py_ord x) s"
  by (induction s) (simp_all add: str_upper_def py_ord_range_upper)

lemma range_str_lower:
  "list_ex (\<lambda>x. py_ord x < 33 \<or> 126 < py_ord x) (str_lower s)
     = list_ex (\<lambda>x. py_ord x < 33 \<or> 126 < py_ord x) s"
  by (induction s) (simp_all add: str_lower_def py_ord_range_lower)

lemma bech32_decode_mixed:
  "list_ex is_upper s \<Longrightarrow> list_ex is_lower s \<Longrightarrow> bech32_decode s = (None, None)"
  by (simp add: bech32_decode_def str_lower_fix str_upper_fix)

lemma bech32_decode_upper: "bech32_decode (str_upper s) = bech32_decode (str_lower s)"
  unfolding bech32_decode_def [of "str_upper s"] bech32_decode_def [of "str_lower s"]
  by (simp only: range_str_upper range_str_lower str_lower_upper str_lower_lower
      str_upper_upper simp_thms)

lemma bech32_decode_single_case:
  "\<not> (list_ex is_upper s \<and> list_ex is_lower s) \<Longrightarrow> bech32_decode (str_lower s) = bech32_decode s"
  unfolding bech32_decode_def [of "str_lower s"] bech32_decode_def [of s]
  by (simp only: range_str_lower str_lower_lower simp_thms) (auto simp: str_lower_fix str_upper_fix)


lemma decode_upper: "decode hrp (str_upper s) = decode hrp (str_lower s)"
  by (simp add: decode_def bech32_decode_upper)

text \<open>
  C10. When \<^verbatim>\<open>bech32_decode\<close> succeeds with an empty data part, \<^verbatim>\<open>decode\<close>
  returns \<^verbatim>\<open>(None, None)\<close> for every \<open>hrp\<close>: it does not raise IndexError, because
  the length check on the repacked program (length 0, below 2) returns before
  \<^verbatim>\<open>data[0]\<close> is read; \<^verbatim>\<open>validate_bech32\<close> is then False.
\<close>

theorem decode_empty_data:
  "bech32_decode addr = (Some h, Some []) \<Longrightarrow>
     decode hrp addr = Returns (None, None) \<and> validate_bech32 addr hrp = Returns False"
  by (simp add: decode_def validate_bech32_def convertbits_nil)

theorem decode_empty_data_witness:
  "bech32_decode ''a12uel5l'' = (Some ''a'', Some [])
   \<and> decode ''a'' ''a12uel5l'' = Returns (None, None)
   \<and> validate_bech32 ''a12uel5l'' ''a'' = Returns False"
proof -
  have h: "bech32_decode ''a12uel5l'' = (Some ''a'', Some [])"
    by code_simp
  from decode_empty_data [OF h, of "''a''"] h show ?thesis by simp
qed

text \<open>
  C6. Whenever \<^verbatim>\<open>decode(hrp, addr)\<close> succeeds, the witness version is at most 16, the
  program has between 2 and 40 bytes, and a version 0 program has exactly 20 or 32 bytes.
  Conversely, when the bech32 string decodes under \<open>hrp\<close> to a version \<open>v'\<close> and a
  repacked program \<open>prog'\<close> that break one of these bounds, \<^verbatim>\<open>decode\<close> returns
  \<^verbatim>\<open>(None, None)\<close> and \<^verbatim>\<open>validate_bech32\<close> returns False.
\<close>

theorem decode_bounds:
  "(decode hrp addr = Returns (Some v, Some prog) \<longrightarrow>
      v \<le> 16 \<and> 2 \<le> length prog \<and> length prog \<le> 40
      \<and> (v = 0 \<longrightarrow> length prog = 20 \<or> length prog = 32))
   \<and> (bech32_decode addr = (Some hrp, Some (v' # rest))
        \<and> convertbits rest 5 8 False = Returns (Some prog')
        \<and> (16 < v' \<or> length prog' < 2 \<or> 40 < length prog'
             \<or> (v' = 0 \<and> length prog' \<noteq> 20 \<and> length prog' \<noteq> 32)) \<longrightarrow>
      decode hrp addr = Returns (None, None) \<and> validate_bech32 addr hrp = Returns False)"
proof (intro conjI impI)
  assume ok: "decode hrp addr = Returns (Some v, Some prog)"
  then show "v \<le> 16" and "2 \<le> length prog" and "length prog \<le> 40"
    by (auto simp: decode_def split: prod.splits if_splits option.splits outcome.splits list.splits)
  assume "v = 0"
  with ok show "length prog = 20 \<or> length prog = 32"
    by (auto simp: decode_def split: prod.splits if_splits option.splits outcome.splits list.splits)
next
  assume bad: "bech32_decode addr = (Some hrp, Some (v' # rest))
        \<and> convertbits rest 5 8 False = Returns (Some prog')
        \<and> (16 < v' \<or> length prog' < 2 \<or> 40 < length prog'
             \<or> (v' = 0 \<and> length prog' \<noteq> 20 \<and> length prog' \<noteq> 32))"
  then show d: "decode hrp addr = Returns (None, None)"
    by (auto simp: decode_def)
  show "validate_bech32 addr hrp = Returns False"
    by (simp add: validate_bech32_def d)
qed

theorem decode_bounds_witness:
  "decode ''bc'' ''BC1SW50QA3JX3S'' = Returns (Some 16, Some [117, 30])
   \<and> (16::int) \<le> 16 \<and> 2 \<le> length [117::int, 30] \<and> length [117::int, 30] \<le> 40
   \<and> decode ''bc'' ''BC1QW508D6QEJXTDG4Y5R3ZARVARY0C5XW7KV8F3T4'' =
       Returns (Some 0, Some [117, 30, 118, 232, 25, 145, 150, 212, 84, 148, 28, 69, 209,
         179, 163, 35, 241, 67, 59, 214])
   \<and> length [117::int, 30, 118, 232, 25, 145, 150, 212, 84, 148, 28, 69, 209,
         179, 163, 35, 241, 67, 59, 214] = 20
   \<and> bech32_decode ''bc1rw5uspcuh'' = (Some ''bc'', Some [3, 14, 20])
   \<and> convertbits [14, 20] 5 8 False = Returns (Some [117])
   \<and> length [117::int] < 2
   \<and> decode ''bc'' ''bc1rw5uspcuh'' = Returns (None, None)
   \<and> validate_bech32 ''bc1rw5uspcuh'' ''bc'' = Returns False"
proof -
  let ?p = "[117::int, 30, 118, 232, 25, 145, 150, 212, 84, 148, 28, 69, 209,
         179, 163, 35, 241, 67, 59, 214]"
  have a: "decode ''bc'' ''BC1SW50QA3JX3S'' = Returns (Some 16, Some [117, 30])"
    by code_simp
  have b: "decode ''bc'' ''BC1QW508D6QEJXTDG4Y5R3ZARVARY0C5XW7KV8F3T4'' = Returns (Some 0, Some ?p)"
    by code_simp
  have c: "bech32_decode ''bc1rw5uspcuh'' = (Some ''bc'', Some [3, 14, 20])"
    by code_simp
  have d: "convertbits [14, 20] 5 8 False = Returns (Some [117])"
    by code_simp
  from decode_bounds [of "''bc''" "''BC1SW50QA3JX3S''" 16 "[117, 30]"] a
  have a': "(16::int) \<le> 16 \<and> 2 \<le> length [117::int, 30] \<and> length [117::int, 30] \<le> 40"
    by blast
  from decode_bounds [of "''bc''" "''BC1QW508D6QEJXTDG4Y5R3ZARVARY0C5XW7KV8F3T4''" 0 ?p] b
  have b': "length ?p = 20 \<or> length ?p = 32"
    by blast
  from decode_bounds [of "''bc''" "''bc1rw5uspcuh''" _ _ 3 "[14, 20]" "[117]"] c d
  have c': "decode ''bc'' ''bc1rw5uspcuh'' = Returns (None, None)
      \<and> validate_bech32 ''bc1rw5uspcuh'' ''bc'' = Returns False"
    by simp
  from a a' b b' c d c' show ?thesis by simp
qed

text \<open>
  C7. A bech32 string that contains both a capital and a small letter is rejected:
  \<^verbatim>\<open>bech32_decode\<close> and \<^verbatim>\<open>decode\<close> return \<^verbatim>\<open>(None, None)\<close>,
  \<^verbatim>\<open>validate_bech32\<close> returns False, and so does \<^verbatim>\<open>validate\<close> when the
  prefix sends the string to the bech32 branch. For an ASCII string \<open>s\<close> of one case only, the
  all-capital form and the all-small form of \<open>s\<close> decode to the same result, which is also the
  result for \<open>s\<close> itself.
\<close>

theorem bech32_case_rule:
  "(list_ex is_upper s \<and> list_ex is_lower s \<longrightarrow>
      bech32_decode s = (None, None)
      \<and> decode hrp s = Returns (None, None)
      \<and> validate_bech32 s hrp = Returns False
      \<and> (str_lower (take 2 s) = (if testnet then ''tb'' else ''bc'') \<longrightarrow>
           validate rt sha256 s testnet = Returns False))
   \<and> (\<not> (list_ex is_upper s \<and> list_ex is_lower s) \<and> list_all (\<lambda>x. py_ord x < 128) s \<longrightarrow>
      bech32_decode (str_upper s) = bech32_decode (str_lower s)
      \<and> decode hrp (str_upper s) = decode hrp (str_lower s)
      \<and> decode hrp (str_upper s) = decode hrp s
      \<and> validate_bech32 (str_upper s) hrp = validate_bech32 (str_lower s) hrp)"
proof (intro conjI impI)
  assume mixed: "list_ex is_upper s \<and> list_ex is_lower s"
  then show none: "bech32_decode s = (None, None)"
    by (simp add: bech32_decode_mixed)
  then show dec: "decode hrp s = Returns (None, None)" for hrp
    by (simp add: decode_def)
  then show val: "validate_bech32 s hrp = Returns False" for hrp
    by (simp add: validate_bech32_def)
  assume "str_lower (take 2 s) = (if testnet then ''tb'' else ''bc'')"
  then show "validate rt sha256 s testnet = Returns False"
    by (simp add: validate_def val split: if_splits)
next
  assume single: "\<not> (list_ex is_upper s \<and> list_ex is_lower s) \<and> list_all (\<lambda>x. py_ord x < 128) s"
  show "bech32_decode (str_upper s) = bech32_decode (str_lower s)"
    by (rule bech32_decode_upper)
  show up: "decode hrp (str_upper s) = decode hrp (str_lower s)"
    by (rule decode_upper)
  from single have "bech32_decode (str_lower s) = bech32_decode s"
    by (simp add: bech32_decode_single_case)
  then have "decode hrp (str_lower s) = decode hrp s"
    by (simp add: decode_def)
  with up show "decode hrp (str_upper s) = decode hrp s"
    by simp
  from up show "validate_bech32 (str_upper s) hrp = validate_bech32 (str_lower s) hrp"
    by (simp add: validate_bech32_def)
qed

theorem bech32_case_rule_witness:
  "list_ex is_upper ''Bc1sw50qa3jx3s'' \<and> list_ex is_lower ''Bc1sw50qa3jx3s''
   \<and> bech32_decode ''Bc1sw50qa3jx3s'' = (None, None)
   \<and> decode ''bc'' ''Bc1sw50qa3jx3s'' = Returns (None, None)
   \<and> validate_bech32 ''Bc1sw50qa3jx3s'' ''bc'' = Returns False
   \<and> str_lower (take 2 ''Bc1sw50qa3jx3s'') = ''bc''
   \<and> validate Py3 id ''Bc1sw50qa3jx3s'' False = Returns False
   \<and> \<not> (list_ex is_upper ''bc1sw50qa3jx3s'' \<and> list_ex is_lower ''bc1sw50qa3jx3s'')
   \<and> list_all (\<lambda>x. py_ord x < 128) ''bc1sw50qa3jx3s''
   \<and> str_upper ''bc1sw50qa3jx3s'' = ''BC1SW50QA3JX3S''
   \<and> str_lower ''bc1sw50qa3jx3s'' = ''bc1sw50qa3jx3s''
   \<and> decode ''bc'' ''BC1SW50QA3JX3S'' = decode ''bc'' ''bc1sw50qa3jx3s''
   \<and> decode ''bc'' ''bc1sw50qa3jx3s'' = Returns (Some 16, Some [117, 30])"
proof -
  let ?m = "''Bc1sw50qa3jx3s''" and ?s = "''bc1sw50qa3jx3s''"
  have m: "list_ex is_upper ?m \<and> list_ex is_lower ?m"
    by code_simp
  have pre: "str_lower (take 2 ?m) = (if False then ''tb'' else ''bc'')"
    by code_simp
  have s: "\<not> (list_ex is_upper ?s \<and> list_ex is_lower ?s) \<and> list_all (\<lambda>x. py_ord x < 128) ?s"
    by code_simp
  have u: "str_upper ?s = ''BC1SW50QA3JX3S''" and l: "str_lower ?s = ?s"
    by code_simp+
  have v: "decode ''bc'' ?s = Returns (Some 16, Some [117, 30])"
    by code_simp
  from bech32_case_rule [of ?m "''bc''" False Py3 id] m pre
  have r1: "bech32_decode ?m = (None, None) \<and> decode ''bc'' ?m = Returns (None, None)
      \<and> validate_bech32 ?m ''bc'' = Returns False \<and> validate Py3 id ?m False = Returns False"
    by simp
  from bech32_case_rule [of ?s "''bc''"] s
  have r2: "decode ''bc'' (str_upper ?s) = decode ''bc'' (str_lower ?s)"
    by blast
  from m pre s u l v r1 r2 show ?thesis by simp
qed

lemma str_index_nth: "distinct xs \<Longrightarrow> i < length xs \<Longrightarrow> str_index xs (xs ! i) = Some i"
proof (induction xs arbitrary: i)
  case Nil
  then show ?case by simp
next
  case (Cons x xs)
  show ?case
  proof (cases i)
    case 0
    then show ?thesis by simp
  next
    case (Suc j)
    with Cons.prems have "xs ! j \<in> set xs" and "x \<notin> set xs" by auto
    then have "x \<noteq> xs ! j" by auto
    with Suc Cons show ?thesis by simp
  qed
qed

lemma distinct_digits58: "distinct digits58"
  by (simp add: digits58_def)

lemma length_digits58: "length digits58 = 58"
  by (simp add: digits58_def)

lemma str_index_digit: "d < 58 \<Longrightarrow> str_index digits58 (digits58 ! d) = Some d"
  by (simp add: str_index_nth distinct_digits58 length_digits58)

lemma str_index_one: "str_index digits58 (CHR ''1'') = Some 0"
  by (simp add: digits58_def)

lemma decode_loop_digits:
  "list_all (\<lambda>d. d < 58) ds \<Longrightarrow>
     decode_loop n (map ((!) digits58) ds) = Returns (foldl (\<lambda>a d. a * 58 + d) n ds)"
  by (induction ds arbitrary: n) (simp_all add: str_index_digit)

lemma decode_loop_ones: "decode_loop 0 (replicate z (CHR ''1'') @ s) = decode_loop 0 s"
  by (induction z) (simp_all add: str_index_one)


lemma encode_loop_digits:
  "rest < 58 \<Longrightarrow>
     \<exists>ds. encode_loop n rest result = result @ map ((!) digits58) ds
          \<and> list_all (\<lambda>d. d < 58) ds
          \<and> foldr (\<lambda>d a. d + 58 * a) ds 0 = n * 58 + rest"
proof (induction n rest result rule: encode_loop.induct)
  case (1 n rest result)
  show ?case
  proof (cases "0 < n \<or> 0 < rest")
    case True
    have "n mod 58 < 58" by simp
    from "1.IH" [OF True this] obtain ds where
      ds: "encode_loop (n div 58) (n mod 58) (result @ [digits58 ! rest])
             = (result @ [digits58 ! rest]) @ map ((!) digits58) ds"
        "list_all (\<lambda>d. d < 58) ds"
        "foldr (\<lambda>d a. d + 58 * a) ds 0 = n div 58 * 58 + n mod 58"
      by blast
    have "encode_loop n rest result = result @ map ((!) digits58) (rest # ds)"
      using True ds(1) by (subst encode_loop.simps) simp
    moreover have "list_all (\<lambda>d. d < 58) (rest # ds)"
      using ds(2) "1.prems" by simp
    moreover have "foldr (\<lambda>d a. d + 58 * a) (rest # ds) 0 = n * 58 + rest"
      using ds(3) by simp
    ultimately show ?thesis by blast
  next
    case False
    then have "encode_loop n rest result = result @ map ((!) digits58) []"
      by (subst encode_loop.simps) simp
    moreover from False have "foldr (\<lambda>d a. d + 58 * a) [] 0 = n * 58 + rest"
      by simp
    ultimately show ?thesis by simp
  qed
qed

lemma foldl_rev_digits:
  "foldl (\<lambda>a d. a * 58 + d) (0::nat) (rev ds) = foldr (\<lambda>d a. d + 58 * a) ds 0"
  by (induction ds) simp_all

lemma decode_loop_encode_loop:
  "decode_loop 0 (rev (encode_loop (n div 58) (n mod 58) [])) = Returns n"
proof -
  have "n mod 58 < 58" by simp
  from encode_loop_digits [OF this, of "n div 58" "[]"] obtain ds where
    ds: "encode_loop (n div 58) (n mod 58) [] = map ((!) digits58) ds"
      "list_all (\<lambda>d. d < 58) ds"
      "foldr (\<lambda>d a. d + 58 * a) ds 0 = n div 58 * 58 + n mod 58"
    unfolding append_Nil by blast
  have "decode_loop 0 (rev (encode_loop (n div 58) (n mod 58) []))
          = decode_loop 0 (map ((!) digits58) (rev ds))"
    by (simp only: ds(1) rev_map)
  also have "\<dots> = Returns (foldl (\<lambda>a d. a * 58 + d) 0 (rev ds))"
    using ds(2) by (intro decode_loop_digits) (simp add: list_all_iff)
  also have "\<dots> = Returns n"
    by (simp add: foldl_rev_digits ds(3))
  finally show ?thesis .
qed

lemma int_from_bytes_snoc:
  "int_from_bytes (bs @ [x]) = int_from_bytes bs * 256 + unat x"
  by (simp add: int_from_bytes_def)

lemma unat_byte_less: "unat (x :: byte) < 256"
  using unsigned_less [of x, where ?'a = nat] by simp

lemma int_from_bytes_less: "int_from_bytes bs < 256 ^ length bs"
proof (induction bs rule: rev_induct)
  case Nil
  then show ?case by (simp add: int_from_bytes_def)
next
  case (snoc x xs)
  have "int_from_bytes xs * 256 + unat x < (int_from_bytes xs + 1) * 256"
    using unat_byte_less [of x] by simp
  also have "\<dots> \<le> 256 ^ length xs * 256"
    using snoc.IH by (intro mult_right_mono) simp_all
  finally show ?case by (simp add: int_from_bytes_snoc)
qed

lemma be_digits_int_from_bytes: "be_digits (length bs) (int_from_bytes bs) = bs"
proof (induction bs rule: rev_induct)
  case Nil
  then show ?case by simp
next
  case (snoc x xs)
  have "(int_from_bytes xs * 256 + unat x) div 256 = int_from_bytes xs"
    and "(int_from_bytes xs * 256 + unat x) mod 256 = unat x"
    using unat_byte_less [of x] by simp_all
  with snoc.IH show ?case by (simp add: int_from_bytes_snoc)
qed


lemma and_255_nat: "(m::nat) AND 255 = m mod 256"
proof -
  have "take_bit 8 m = m AND mask 8" by (rule take_bit_eq_mask)
  moreover have "mask 8 = (255::nat)" by (simp add: mask_eq_exp_minus_1)
  ultimately show ?thesis by (simp add: take_bit_eq_mod)
qed

lemma sum_enumerate_shift:
  "sum_list (map (\<lambda>(i, v). push_bit (i * 8) (unat v)) (enumerate k (xs :: byte list)))
     = 2 ^ (8 * k) * foldr (\<lambda>x a. unat x + 256 * a) xs 0"
proof (induction xs arbitrary: k)
  case Nil
  then show ?case by simp
next
  case (Cons x xs)
  have "(2::nat) ^ (8 * Suc k) = 2 ^ (8 * k) * 256" by (simp add: power_add)
  with Cons [of "Suc k"] show ?case
    by (simp add: push_bit_eq_mult algebra_simps)
qed

lemma foldr_rev_bytes: "foldr (\<lambda>x a. unat x + 256 * a) (rev bs) 0 = int_from_bytes bs"
  by (induction bs rule: rev_induct) (simp_all add: int_from_bytes_def)

lemma bytes_to_long_big: "bytes_to_long bs ''big'' = int_from_bytes bs"
  using sum_enumerate_shift [of 0 "rev bs"] by (simp add: bytes_to_long_def foldr_rev_bytes)

lemma long_to_bytes_big: "long_to_bytes n len ''big'' = be_digits len n"
proof -
  have "map (\<lambda>i. of_nat (drop_bit (i * 8) n AND 255) :: byte) (rev [0..<len]) = be_digits len n"
  proof (induction len arbitrary: n)
    case 0
    then show ?case by simp
  next
    case (Suc k)
    have "[0..<Suc k] = 0 # map Suc [0..<k]"
      by (simp add: upt_conv_Cons map_Suc_upt del: upt_Suc)
    then have "map (\<lambda>i. of_nat (drop_bit (i * 8) n AND 255) :: byte) (rev [0..<Suc k])
        = map (\<lambda>i. of_nat (drop_bit (Suc i * 8) n AND 255)) (rev [0..<k]) @ [of_nat (n AND 255)]"
      by (simp only: rev.simps rev_map map_append list.map map_map o_def) simp
    moreover have "drop_bit (Suc i * 8) n = drop_bit (i * 8) (n div 256)" for i
      by (simp add: drop_bit_eq_div power_add div_mult2_eq mult.commute)
    ultimately show ?case
      using Suc [of "n div 256"] by (simp add: and_255_nat)
  qed
  then show ?thesis by (simp add: long_to_bytes_def)
qed

text \<open>
  C3. For every byte string \<open>b\<close> of length 25, decoding the encoding of \<open>b\<close> at width 25
  returns \<open>b\<close>, on either interpreter: the leading \<^verbatim>\<open>'1'\<close> characters are zero
  digits, the digit loop writes the base58 expansion of the integer of \<open>b\<close>, that integer
  is below \<open>256 ^ 25\<close>, and its 25 big-endian bytes are \<open>b\<close>.
\<close>

theorem base58_roundtrip:
  "length b = 25 \<Longrightarrow> decode_base58 rt (encode_base58 rt b) 25 = Returns b"
proof -
  assume len: "length b = 25"
  define n where "n = int_from_bytes b"
  define z where "z = length (takeWhile (\<lambda>x. x = 0) b)"
  have enc: "encode_base58 rt b
      = replicate z (CHR ''1'') @ rev (encode_loop (n div 58) (n mod 58) [])"
    by (cases rt) (simp_all add: encode_base58_def Let_def bytes_to_long_big n_def z_def)
  have num: "decode_loop 0 (encode_base58 rt b) = Returns n"
    by (simp only: enc decode_loop_ones decode_loop_encode_loop)
  have fits: "n < 256 ^ 25"
    using int_from_bytes_less [of b] by (simp add: n_def len)
  have again: "be_digits 25 n = b"
    using be_digits_int_from_bytes [of b] by (simp add: n_def len)
  show ?thesis
  proof (cases rt)
    case Py2
    with num again show ?thesis
      by (simp add: decode_base58_def long_to_bytes_big)
  next
    case Py3
    with num again fits show ?thesis
      by (simp add: decode_base58_def int_to_bytes_def)
  qed
qed


theorem base58_roundtrip_witness:
  "length [0, 101, 161, 96, 89, 134, 74, 47, 219, 199, 201, 154, 71, 35, 168, 57,
           91, 198, 241, 136, 235, 192, 70, 178, 255 :: byte] = 25
   \<and> decode_base58 Py3
        (encode_base58 Py3 [0, 101, 161, 96, 89, 134, 74, 47, 219, 199, 201, 154, 71, 35,
           168, 57, 91, 198, 241, 136, 235, 192, 70, 178, 255]) 25
      = Returns [0, 101, 161, 96, 89, 134, 74, 47, 219, 199, 201, 154, 71, 35, 168, 57,
           91, 198, 241, 136, 235, 192, 70, 178, 255]"
proof -
  let ?b = "[0, 101, 161, 96, 89, 134, 74, 47, 219, 199, 201, 154, 71, 35, 168, 57,
           91, 198, 241, 136, 235, 192, 70, 178, 255 :: byte]"
  have len: "length ?b = 25" by simp
  from base58_roundtrip [OF len, of Py3] len show ?thesis by simp
qed

lemma convertbits_while_returns:
  "0 < t \<Longrightarrow>
     convertbits_while t maxv acc bits ret
       = Some (bits mod t,
               ret @ map (\<lambda>j. drop_bit (bits - (j + 1) * t) acc AND maxv) [0..<bits div t])"
proof (induction bits arbitrary: ret rule: less_induct)
  case (less bits)
  show ?case
  proof (cases "t \<le> bits")
    case True
    with less.prems have smaller: "bits - t < bits" by simp
    have d: "bits div t = Suc ((bits - t) div t)"
      using True less.prems by (simp add: le_div_geq)
    have m: "bits mod t = (bits - t) mod t"
      using True by (simp add: le_mod_geq)
    have upt: "[0..<Suc k] = 0 # map Suc [0..<k]" for k
      by (simp add: upt_conv_Cons map_Suc_upt del: upt_Suc)
    have "convertbits_while t maxv acc bits ret
        = convertbits_while t maxv acc (bits - t) (ret @ [drop_bit (bits - t) acc AND maxv])"
      using True by (subst convertbits_while.simps) simp
    also have "\<dots> = Some ((bits - t) mod t,
        (ret @ [drop_bit (bits - t) acc AND maxv])
          @ map (\<lambda>j. drop_bit (bits - t - (j + 1) * t) acc AND maxv) [0..<(bits - t) div t])"
      by (rule less.IH [OF smaller less.prems])
    also have "\<dots> = Some (bits mod t,
        ret @ map (\<lambda>j. drop_bit (bits - (j + 1) * t) acc AND maxv) [0..<bits div t])"
      by (simp only: d m upt) (simp add: o_def diff_diff_left add.commute)
    finally show ?thesis .
  next
    case False
    then have "bits div t = 0" and "bits mod t = bits" by simp_all
    with False show ?thesis by (subst convertbits_while.simps) simp
  qed
qed


lemma fits_take_bit: "fits f v \<Longrightarrow> take_bit f v = v"
  by (simp add: fits_def take_bit_int_eq_self)

lemma fits_check: "(v < 0 \<or> drop_bit f v \<noteq> 0) \<longleftrightarrow> \<not> fits f v"
  by (auto simp: fits_def drop_bit_eq_div zdiv_eq_0_iff)

lemma bits_value_snoc: "bits_value f (p @ [v]) = bits_value f p * 2 ^ f + v"
  by (simp add: bits_value_def)

lemma shift_add_or:
  assumes "fits f v"
  shows "T * 2 ^ f + v = push_bit f T OR v"
proof -
  have "\<not> bit (push_bit f T) n \<or> \<not> bit v n" for n
  proof (cases "n < f")
    case True
    then show ?thesis by (simp add: bit_simps)
  next
    case False
    have "bit v n = bit (take_bit f v) n"
      by (simp add: fits_take_bit [OF assms])
    with False show ?thesis by (simp add: bit_simps)
  qed
  then have "push_bit f T + v = push_bit f T OR v"
    by (rule disjunctive_add)
  then show ?thesis by (simp add: push_bit_eq_mult)
qed

lemma maxv_mask: "push_bit t (1::int) - 1 = mask t"
  by (simp add: mask_eq_exp_minus_1)

lemma acc_step:
  "take_bit m (push_bit f (take_bit m T) OR v) = take_bit m (push_bit f T OR (v::int))"
  by (rule bit_eqI) (auto simp: bit_simps)

lemma window:
  "s + t \<le> m \<Longrightarrow> take_bit t (drop_bit s (take_bit m X)) = take_bit t (drop_bit s (X::int))"
  by (rule bit_eqI) (auto simp: bit_simps)

lemma drop_shifted:
  assumes "fits f v"
  shows "drop_bit (f + x) (push_bit f T OR v) = drop_bit x T"
proof (rule bit_eqI)
  fix n
  have "bit v (f + x + n) = bit (take_bit f v) (f + x + n)"
    by (simp add: fits_take_bit [OF assms])
  then have "\<not> bit v (f + x + n)" by (simp add: bit_simps)
  then show "bit (drop_bit (f + x) (push_bit f T OR v)) n = bit (drop_bit x T) n"
    by (simp add: bit_simps add.assoc)
qed

lemma final_window:
  "r \<le> m \<Longrightarrow> r \<le> t \<Longrightarrow>
     take_bit t (push_bit (t - r) (take_bit m X)) = take_bit t (push_bit (t - r) (X::int))"
  by (rule bit_eqI) (auto simp: bit_simps)


lemma regrouped_step:
  assumes t: "0 < t" and v: "fits f v"
  shows "regrouped t (L + f) (push_bit f T OR v)
           = regrouped t L T
             @ map (\<lambda>j. take_bit t (drop_bit (L mod t + f - (j + 1) * t)
                                 (take_bit (f + t - 1) (push_bit f T OR v))))
                 [0..<(L mod t + f) div t]"
proof -
  let ?T = "push_bit f T OR v"
  let ?q = "L div t" and ?r = "L mod t"
  have L: "L = ?q * t + ?r" by simp
  have "(L + f) div t = (?q * t + (?r + f)) div t"
    by (simp only: add.assoc [symmetric] div_mult_mod_eq)
  also have "\<dots> = ?q + (?r + f) div t"
    using t by (subst div_mult_self3) simp_all
  finally have split: "(L + f) div t = ?q + (?r + f) div t" .
  have "[0..<?q + (?r + f) div t] = [0..<?q] @ [?q..<?q + (?r + f) div t]"
    by (rule upt_add_eq_append) simp
  moreover have "map (\<lambda>j. ?q + j) [0..<(?r + f) div t] = [?q..<?q + (?r + f) div t]"
    using map_add_upt [of ?q "(?r + f) div t"] by (simp only: add.commute)
  ultimately have upt:
    "[0..<?q + (?r + f) div t] = [0..<?q] @ map (\<lambda>j. ?q + j) [0..<(?r + f) div t]"
    by simp
  have old: "take_bit t (drop_bit (L + f - (k + 1) * t) ?T) = take_bit t (drop_bit (L - (k + 1) * t) T)"
    if "k < ?q" for k
  proof -
    from that have "(k + 1) * t \<le> ?q * t" by (intro mult_right_mono) simp_all
    also have "\<dots> \<le> L" by simp
    finally have "L + f - (k + 1) * t = f + (L - (k + 1) * t)" by simp
    then show ?thesis by (simp only: drop_shifted [OF v])
  qed
  have new: "take_bit t (drop_bit (L + f - (?q + j + 1) * t) ?T)
        = take_bit t (drop_bit (?r + f - (j + 1) * t) (take_bit (f + t - 1) ?T))"
    if "j < (?r + f) div t" for j
  proof -
    from that have "Suc j \<le> (?r + f) div t" by simp
    then have "Suc j * t \<le> (?r + f) div t * t" by (intro mult_right_mono) simp_all
    also have "\<dots> \<le> ?r + f" by simp
    finally have le: "(j + 1) * t \<le> ?r + f" by simp
    have "?r < t" using t by simp
    with le t have "?r + f - (j + 1) * t + t \<le> f + t - 1"
      by (simp add: algebra_simps) 
    then have w: "take_bit t (drop_bit (?r + f - (j + 1) * t) (take_bit (f + t - 1) ?T))
        = take_bit t (drop_bit (?r + f - (j + 1) * t) ?T)"
      by (rule window)
    have "L + f - (?q + j + 1) * t = ?q * t + (?r + f) - (?q * t + (j + 1) * t)"
      by (simp only: add.assoc [symmetric] div_mult_mod_eq distrib_right)
    also have "\<dots> = ?r + f - (j + 1) * t"
      by (simp only: add_diff_cancel_left)
    finally show ?thesis by (simp only: w)
  qed
  have "regrouped t (L + f) ?T
      = map (\<lambda>k. take_bit t (drop_bit (L + f - (k + 1) * t) ?T)) [0..<?q]
        @ map (\<lambda>j. take_bit t (drop_bit (L + f - (?q + j + 1) * t) ?T)) [0..<(?r + f) div t]"
    by (simp only: regrouped_def split upt map_append map_map o_def)
  also have "map (\<lambda>k. take_bit t (drop_bit (L + f - (k + 1) * t) ?T)) [0..<?q]
      = regrouped t L T"
    unfolding regrouped_def
  proof (rule map_cong [OF refl])
    fix k assume "k \<in> set [0..<?q]"
    then have "k < ?q" by simp
    then show "take_bit t (drop_bit (L + f - (k + 1) * t) ?T)
        = take_bit t (drop_bit (L - (k + 1) * t) T)"
      by (rule old)
  qed
  also have "map (\<lambda>j. take_bit t (drop_bit (L + f - (?q + j + 1) * t) ?T)) [0..<(?r + f) div t]
      = map (\<lambda>j. take_bit t (drop_bit (?r + f - (j + 1) * t) (take_bit (f + t - 1) ?T)))
          [0..<(?r + f) div t]"
  proof (rule map_cong [OF refl])
    fix j assume "j \<in> set [0..<(?r + f) div t]"
    then have "j < (?r + f) div t" by simp
    then show "take_bit t (drop_bit (L + f - (?q + j + 1) * t) ?T)
        = take_bit t (drop_bit (?r + f - (j + 1) * t) (take_bit (f + t - 1) ?T))"
      by (rule new)
  qed
  finally show ?thesis .
qed


lemma convertbits_for_fits:
  assumes t: "0 < t"
  shows "list_all (fits f) vs \<Longrightarrow>
     bits = (length p * f) mod t \<Longrightarrow>
     acc = take_bit (f + t - 1) (bits_value f p) \<Longrightarrow>
     ret = regrouped t (length p * f) (bits_value f p) \<Longrightarrow>
     convertbits_for f t acc bits ret vs
       = Returns (Some (take_bit (f + t - 1) (bits_value f (p @ vs)),
                        (length (p @ vs) * f) mod t,
                        regrouped t (length (p @ vs) * f) (bits_value f (p @ vs))))"
proof (induction vs arbitrary: p acc bits ret)
  case Nil
  then show ?case by simp
next
  case (Cons v vs)
  let ?m = "f + t - 1" and ?L = "length p * f"
  let ?T = "bits_value f p"
  let ?T1 = "push_bit f ?T OR v"
  from Cons.prems(1) have v: "fits f v" and vs: "list_all (fits f) vs" by simp_all
  have T1: "bits_value f (p @ [v]) = ?T1"
    by (simp add: bits_value_snoc shift_add_or [OF v])
  have acc1: "(push_bit f acc OR v) AND (push_bit ?m 1 - 1) = take_bit ?m ?T1"
    by (simp only: maxv_mask take_bit_eq_mask [symmetric] Cons.prems(3) acc_step)
  have loop: "convertbits_while t (push_bit t 1 - 1) (take_bit ?m ?T1) (bits + f) ret
      = Some ((?L + f) mod t, regrouped t (?L + f) ?T1)"
  proof -
    have "(bits + f) mod t = (?L + f) mod t"
      by (simp add: Cons.prems(2) mod_add_left_eq)
    moreover have "ret @ map (\<lambda>j. drop_bit (bits + f - (j + 1) * t) (take_bit ?m ?T1)
                                  AND (push_bit t 1 - 1)) [0..<(bits + f) div t]
        = regrouped t (?L + f) ?T1"
      by (simp only: maxv_mask take_bit_eq_mask [symmetric] Cons.prems(2) Cons.prems(4)
          regrouped_step [OF t v])
    ultimately show ?thesis
      by (simp only: convertbits_while_returns [OF t])
  qed
  have step: "convertbits_for f t acc bits ret (v # vs)
      = convertbits_for f t (take_bit ?m ?T1) ((?L + f) mod t) (regrouped t (?L + f) ?T1) vs"
    by (simp only: convertbits_for.simps fits_check v Let_def acc1 loop option.case prod.case
        simp_thms if_False)
  have len: "length (p @ [v]) * f = ?L + f" by simp
  have "convertbits_for f t (take_bit ?m ?T1) ((?L + f) mod t) (regrouped t (?L + f) ?T1) vs
      = Returns (Some (take_bit ?m (bits_value f ((p @ [v]) @ vs)),
                       (length ((p @ [v]) @ vs) * f) mod t,
                       regrouped t (length ((p @ [v]) @ vs) * f) (bits_value f ((p @ [v]) @ vs))))"
    by (rule Cons.IH [OF vs]) (simp_all only: T1 len)
  with step show ?case by simp
qed

lemma convertbits_for_unfit:
  assumes t: "0 < t"
  shows "\<not> list_all (fits f) vs \<Longrightarrow> convertbits_for f t acc bits ret vs = Returns None"
proof (induction vs arbitrary: acc bits ret)
  case Nil
  then show ?case by simp
next
  case (Cons v vs)
  show ?case
  proof (cases "fits f v")
    case False
    then show ?thesis by (simp add: fits_check)
  next
    case True
    with Cons.prems have "\<not> list_all (fits f) vs" by simp
    with True show ?thesis
      by (simp only: convertbits_for.simps fits_check Let_def convertbits_while_returns [OF t]
          Cons.IH option.case prod.case simp_thms if_False)
  qed
qed


lemma convertbits_for_start:
  assumes t: "0 < t" and ok: "list_all (fits f) data"
  shows "convertbits_for f t 0 0 [] data
           = Returns (Some (take_bit (f + t - 1) (bits_value f data),
                            (length data * f) mod t,
                            regrouped t (length data * f) (bits_value f data)))"
proof -
  have "convertbits_for f t 0 0 [] data
      = Returns (Some (take_bit (f + t - 1) (bits_value f ([] @ data)),
                       (length ([] @ data) * f) mod t,
                       regrouped t (length ([] @ data) * f) (bits_value f ([] @ data))))"
    by (rule convertbits_for_fits [OF t ok]) (simp_all add: bits_value_def regrouped_def)
  then show ?thesis by simp
qed

lemma last_group:
  assumes t: "0 < t"
  shows "push_bit (t - len mod t) (take_bit (f + t - 1) T) AND (push_bit t 1 - 1)
           = final_group t len T"
proof -
  have "len mod t < t" using t by simp
  then have "len mod t \<le> f + t - 1" and "len mod t \<le> t" by simp_all
  then show ?thesis
    by (simp only: maxv_mask take_bit_eq_mask [symmetric] final_group_def final_window)
qed

text \<open>
  C8 (as amended). The claim states the behaviour of \<^verbatim>\<open>convertbits\<close> for all
  widths; it holds for every positive \<open>tobits\<close>, and fails for \<open>tobits = 0\<close> (see the
  counterexample below). For a positive \<open>tobits\<close>, \<^verbatim>\<open>convertbits\<close> answers
  \<^verbatim>\<open>None\<close> exactly when some input value does not fit in \<open>frombits\<close> bits (it is
  negative or has a bit at position \<open>frombits\<close> or above), or when \<open>pad\<close> is false and
  either the leftover bit count \<open>(length data * frombits) mod tobits\<close> is at least
  \<open>frombits\<close> or the leftover bits, shifted left into a group of \<open>tobits\<close> bits, are not
  zero. Otherwise it returns the groups of \<open>tobits\<close> bits of the concatenated input,
  followed, when \<open>pad\<close> is true and bits are left over, by the zero-padded last group.
\<close>

theorem convertbits_spec:
  "0 < tobits \<Longrightarrow>
   convertbits data frombits tobits pad =
     (if \<not> list_all (fits frombits) data then Returns None
      else if pad then
        Returns (Some (regrouped tobits (length data * frombits) (bits_value frombits data)
                       @ (if 0 < (length data * frombits) mod tobits
                          then [final_group tobits (length data * frombits)
                                  (bits_value frombits data)]
                          else [])))
      else if frombits \<le> (length data * frombits) mod tobits
              \<or> final_group tobits (length data * frombits) (bits_value frombits data) \<noteq> 0
      then Returns None
      else Returns (Some (regrouped tobits (length data * frombits)
                            (bits_value frombits data))))"
proof -
  assume t: "0 < tobits"
  then have nz: "frombits + tobits \<noteq> 0" by simp
  show ?thesis
  proof (cases "list_all (fits frombits) data")
    case False
    then show ?thesis
      using t by (simp add: convertbits_def convertbits_for_unfit [OF t])
  next
    case True
    show ?thesis
      unfolding convertbits_def
      by (simp only: nz if_False convertbits_for_start [OF t True] outcome.case option.case
          prod.case Let_def last_group [OF t] True simp_thms) simp
  qed
qed


theorem convertbits_spec_witness:
  "0 < (8::nat)
   \<and> convertbits [14, 20] 5 8 False = Returns (Some [117])
   \<and> convertbits [14, 21] 5 8 False = Returns None
   \<and> convertbits [1, 2, 3] 5 8 True = Returns (Some [8, 134])
   \<and> convertbits [1, 32] 5 8 True = Returns None
   \<and> convertbits [255, 1] 8 5 True = Returns (Some [31, 28, 0, 16])"
proof -
  have t8: "0 < (8::nat)" and t5: "0 < (5::nat)" by simp_all
  have a: "convertbits [14, 20] 5 8 False = Returns (Some [117])"
    by (simp only: convertbits_spec [OF t8]) code_simp
  have b: "convertbits [14, 21] 5 8 False = Returns None"
    by (simp only: convertbits_spec [OF t8]) code_simp
  have c: "convertbits [1, 2, 3] 5 8 True = Returns (Some [8, 134])"
    by (simp only: convertbits_spec [OF t8]) code_simp
  have d: "convertbits [1, 32] 5 8 True = Returns None"
    by (simp only: convertbits_spec [OF t8]) code_simp
  have e: "convertbits [255, 1] 8 5 True = Returns (Some [31, 28, 0, 16])"
    by (simp only: convertbits_spec [OF t5]) code_simp
  from t8 a b c d e show ?thesis by simp
qed

text \<open>
  With \<open>tobits = 0\<close> the inner loop \<^verbatim>\<open>while bits >= tobits\<close> never ends once it
  is entered, and with both widths 0 the shift \<^verbatim>\<open>1 << (frombits + tobits - 1)\<close>
  has a negative count.
\<close>

lemma convertbits_while_positive:
  assumes run: "convertbits_while t maxv acc bits ret = Some y"
  shows "0 < t"
proof (rule convertbits_while.raw_induct
    [where P = "\<lambda>t maxv acc bits ret y. 0 < t", OF _ run])
  fix f :: "nat \<Rightarrow> int \<Rightarrow> int \<Rightarrow> nat \<Rightarrow> int list \<Rightarrow> (nat \<times> int list) option"
  fix t maxv acc bits ret y
  assume ih: "\<And>t maxv acc bits ret y. f t maxv acc bits ret = Some y \<Longrightarrow> 0 < t"
    and body: "(if t \<le> bits
                then f t maxv acc (bits - t) (ret @ [drop_bit (bits - t) acc AND maxv])
                else Some (bits, ret)) = Some y"
  show "0 < t"
  proof (cases "t \<le> bits")
    case True
    with body have "f t maxv acc (bits - t) (ret @ [drop_bit (bits - t) acc AND maxv]) = Some y"
      by simp
    then show ?thesis by (rule ih)
  next
    case False
    then show ?thesis by simp
  qed
qed

lemma convertbits_while_zero: "convertbits_while 0 maxv acc bits ret = None"
proof (cases "convertbits_while 0 maxv acc bits ret")
  case None
  then show ?thesis .
next
  case (Some y)
  from convertbits_while_positive [OF this] show ?thesis by simp
qed

text \<open>
  C8 (counterexample to the claim as stated, for all widths). With no input value out of
  range and \<open>pad\<close> true the claim promises the regrouped sequence. But
  \<^verbatim>\<open>convertbits([], 0, 0, True)\<close> raises ValueError, and
  \<^verbatim>\<open>convertbits([0], 1, 0, True)\<close> does not return.
\<close>

theorem convertbits_zero_width_counterexample:
  "convertbits [] 0 0 True = Raises ValueError
   \<and> convertbits [0] 1 0 True = Diverges
   \<and> convertbits [] 0 0 True \<noteq> Returns (Some [])
   \<and> convertbits [0] 1 0 True \<noteq> Returns (Some [])"
proof -
  have a: "convertbits [] 0 0 True = Raises ValueError"
    by (simp add: convertbits_def)
  have b: "convertbits [0] 1 0 True = Diverges"
    by (simp add: convertbits_def convertbits_while_zero)
  from a b show ?thesis by simp
qed

subsection \<open>Base58 validation on Python 3\<close>

text \<open>
  On Python 3 \<^verbatim>\<open>decode_base58\<close> takes the \<^verbatim>\<open>to_bytes\<close> branch, which raises
  OverflowError for a numeral of more than 25 bytes, and \<^verbatim>\<open>validate_base58\<close> catches
  ValueError only; and the magic-byte test hands a \<^verbatim>\<open>str\<close> to
  \<^verbatim>\<open>bytes.startswith\<close>, which raises TypeError. So every candidate of 27 to 35
  base58 characters makes \<^verbatim>\<open>validate_base58\<close> raise, and it never returns True.
\<close>

lemma magic_loop_py3:
  "mb < 1114112 \<Longrightarrow> magic_loop Py3 bcbytes (mb # mbs) = Raises TypeError"
  by (simp add: startswith_chr_def)

lemma validate_base58_py3:
  assumes "27 \<le> length a" and "length a \<le> 35"
    and "decode_loop 0 a = Returns n" and "mb < 1114112"
  shows "validate_base58 Py3 H a (mb # mbs)
           = (if 256 ^ 25 \<le> n then Raises OverflowError else Raises TypeError)"
proof -
  from assms(1,2) have len: "\<not> (length a < 27 \<or> 35 < length a)" by simp
  show ?thesis
    unfolding validate_base58_def Let_def decode_base58_def assms(3)
    by (simp only: len if_False outcome.case runtime.case int_to_bytes_def
        magic_loop_py3 [OF assms(4)] split: if_splits) simp
qed

lemma num_z35:
  "decode_loop 0 ''zzzzzzzzzzzzzzzzzzzzzzzzzzzzzzzzzzz''
     = Returns 52478302028992644968172978478148648556151605660894866578604031"
  by (simp add: digits58_def)

lemma num_3QJ:
  "decode_loop 0 ''3QJmV3qfvL9SuYo34YihAf3sRCW3qSinyC''
     = Returns 37468528313068534977268389122468030128186308440861775507719"
  by (simp add: digits58_def)

lemma num_mpc:
  "decode_loop 0 ''mpc1rKeaMSCuQnJevMViLuq8uWjHwgdjiV''
     = Returns 699202448747352098810888867212193851818111027253013600782878"
  by (simp add: digits58_def)

lemma num_1AG:
  "decode_loop 0 ''1AGNa15ZQXAZUgFiqJ2i7Z2DPU2J6hW62i''
     = Returns 2491969579123783355964723219455906992268673266682165637887"
  by (simp add: digits58_def)

lemma num_zz: "decode_loop 0 ''zz'' = Returns 3363"
  by (simp add: digits58_def)

lemma validate_to_base58:
  "str_lower (take 2 a) \<noteq> ''tb'' \<Longrightarrow> str_lower (take 2 a) \<noteq> ''bc'' \<Longrightarrow>
     validate rt H a testnet
       = validate_base58 rt H a (if testnet then [111, 196] else [0, 5])"
  by (simp add: validate_def)

lemma decode_loop_shape:
  "(\<exists>n. decode_loop k a = Returns n) \<or> decode_loop k a = Raises ValueError"
  by (induction a arbitrary: k) (auto split: option.splits)

lemma validate_base58_py3_never_true:
  assumes "mb < 1114112"
  shows "validate_base58 Py3 H a (mb # mbs) \<noteq> Returns True"
proof (cases "length a < 27 \<or> 35 < length a")
  case True
  then show ?thesis by (simp add: validate_base58_def)
next
  case False
  then have len: "27 \<le> length a" "length a \<le> 35" by simp_all
  from decode_loop_shape [of 0 a] show ?thesis
  proof
    assume "\<exists>n. decode_loop 0 a = Returns n"
    then obtain n where "decode_loop 0 a = Returns n" ..
    from validate_base58_py3 [OF len this assms] show ?thesis by simp
  next
    assume "decode_loop 0 a = Raises ValueError"
    with False show ?thesis by (simp add: validate_base58_def decode_base58_def)
  qed
qed

lemma decode_base58_py3_overflow:
  "decode_loop 0 text = Returns n \<Longrightarrow> 256 ^ len \<le> n \<Longrightarrow>
     decode_base58 Py3 text len = Raises OverflowError"
  by (simp add: decode_base58_def int_to_bytes_def)

text \<open>
  C1 (the code on Python 3 at two inputs). The claim is that \<^verbatim>\<open>validate\<close> returns True
  or False for every string and both network settings and never raises. On Python 3, for
  either network setting, a string of 35 characters \<^verbatim>\<open>'z'\<close>, whose numeral needs more
  than 25 bytes, makes it raise OverflowError, and the address
  \<^verbatim>\<open>3QJmV3qfvL9SuYo34YihAf3sRCW3qSinyC\<close>, which reaches the magic-byte test, makes it
  raise TypeError.
\<close>

theorem validate_raises_on_python3:
  "validate Py3 sha256 ''zzzzzzzzzzzzzzzzzzzzzzzzzzzzzzzzzzz'' testnet = Raises OverflowError
   \<and> validate Py3 sha256 ''3QJmV3qfvL9SuYo34YihAf3sRCW3qSinyC'' testnet = Raises TypeError"
proof -
  have z: "validate Py3 sha256 ''zzzzzzzzzzzzzzzzzzzzzzzzzzzzzzzzzzz'' testnet
      = validate_base58 Py3 sha256 ''zzzzzzzzzzzzzzzzzzzzzzzzzzzzzzzzzzz''
          (if testnet then [111, 196] else [0, 5])"
    by (rule validate_to_base58) (simp_all add: str_lower_def lower_char_def)
  have q: "validate Py3 sha256 ''3QJmV3qfvL9SuYo34YihAf3sRCW3qSinyC'' testnet
      = validate_base58 Py3 sha256 ''3QJmV3qfvL9SuYo34YihAf3sRCW3qSinyC''
          (if testnet then [111, 196] else [0, 5])"
    by (rule validate_to_base58) (simp_all add: str_lower_def lower_char_def)
  have zo: "validate_base58 Py3 sha256 ''zzzzzzzzzzzzzzzzzzzzzzzzzzzzzzzzzzz'' (mb # mbs)
      = Raises OverflowError" if "mb < 1114112" for mb mbs
    using validate_base58_py3 [OF _ _ num_z35 that, of sha256 mbs] by simp
  have qt: "validate_base58 Py3 sha256 ''3QJmV3qfvL9SuYo34YihAf3sRCW3qSinyC'' (mb # mbs)
      = Raises TypeError" if "mb < 1114112" for mb mbs
    using validate_base58_py3 [OF _ _ num_3QJ that, of sha256 mbs] by simp
  show ?thesis
    unfolding z q by (simp add: zo qt)
qed


text \<open>
  C2 (the code on Python 3 at two inputs). The claim is that \<^verbatim>\<open>decode_base58\<close> returns
  the low-order \<open>length\<close> bytes of a numeral that needs more, without an error. On Python 3
  the \<^verbatim>\<open>to_bytes\<close> branch raises OverflowError instead: for \<^verbatim>\<open>'zz'\<close>
  (the number 3363) at length 1, and for 35 characters \<^verbatim>\<open>'z'\<close> at length 25.
\<close>

theorem decode_base58_overflow_on_python3:
  "decode_base58 Py3 ''zz'' 1 = Raises OverflowError
   \<and> decode_base58 Py3 ''zzzzzzzzzzzzzzzzzzzzzzzzzzzzzzzzzzz'' 25 = Raises OverflowError"
proof -
  have "decode_base58 Py3 ''zz'' 1 = Raises OverflowError"
    by (rule decode_base58_py3_overflow [OF num_zz]) simp
  moreover have "decode_base58 Py3 ''zzzzzzzzzzzzzzzzzzzzzzzzzzzzzzzzzzz'' 25 = Raises OverflowError"
    by (rule decode_base58_py3_overflow [OF num_z35]) simp
  ultimately show ?thesis by simp
qed

text \<open>
  C4 (the code on Python 3 at the claim's input). The claim is that \<^verbatim>\<open>validate\<close> of
  \<^verbatim>\<open>1AGNa15ZQXAZUgFiqJ2i7Z2DPU2J6hW62i\<close> on mainnet is True. On Python 3 the call
  raises TypeError at the magic-byte test.
\<close>

theorem validate_1AGN_on_python3:
  "validate Py3 sha256 ''1AGNa15ZQXAZUgFiqJ2i7Z2DPU2J6hW62i'' False = Raises TypeError"
proof -
  have "validate Py3 sha256 ''1AGNa15ZQXAZUgFiqJ2i7Z2DPU2J6hW62i'' False
      = validate_base58 Py3 sha256 ''1AGNa15ZQXAZUgFiqJ2i7Z2DPU2J6hW62i'' [0, 5]"
    using validate_to_base58 [of "''1AGNa15ZQXAZUgFiqJ2i7Z2DPU2J6hW62i''" Py3 sha256 False]
    by (simp add: str_lower_def lower_char_def)
  also have "\<dots> = Raises TypeError"
    using validate_base58_py3 [OF _ _ num_1AG, of 0 sha256 "[5]"] by simp
  finally show ?thesis .
qed

text \<open>
  C5 (the code on Python 3 at the claim's input). The claim is that an address whose leading
  byte is not a magic byte of the network is answered False, and that
  \<^verbatim>\<open>mpc1rKeaMSCuQnJevMViLuq8uWjHwgdjiV\<close> is True on testnet and False on mainnet. On
  Python 3 both calls raise TypeError at the magic-byte test.
\<close>

theorem validate_mpc1_on_python3:
  "validate Py3 sha256 ''mpc1rKeaMSCuQnJevMViLuq8uWjHwgdjiV'' True = Raises TypeError
   \<and> validate Py3 sha256 ''mpc1rKeaMSCuQnJevMViLuq8uWjHwgdjiV'' False = Raises TypeError"
proof -
  have d: "validate Py3 sha256 ''mpc1rKeaMSCuQnJevMViLuq8uWjHwgdjiV'' testnet
      = validate_base58 Py3 sha256 ''mpc1rKeaMSCuQnJevMViLuq8uWjHwgdjiV''
          (if testnet then [111, 196] else [0, 5])" for testnet
    by (rule validate_to_base58) (simp_all add: str_lower_def lower_char_def)
  have t: "validate_base58 Py3 sha256 ''mpc1rKeaMSCuQnJevMViLuq8uWjHwgdjiV'' (mb # mbs)
      = Raises TypeError" if "mb < 1114112" for mb mbs
    using validate_base58_py3 [OF _ _ num_mpc that, of sha256 mbs] by simp
  show ?thesis
    unfolding d by (simp add: t)
qed

subsection \<open>The fallback branch (Python 2)\<close>

text \<open>
  Where \<^verbatim>\<open>int\<close> has no \<^verbatim>\<open>to_bytes\<close> the fallback helpers run and byte strings
  are \<^verbatim>\<open>str\<close>. There \<^verbatim>\<open>validate\<close> returns a truth value for every string and
  both network settings, \<^verbatim>\<open>decode_base58\<close> keeps the low-order bytes of a numeral that
  is too long, and an address whose leading byte is not a magic byte of the network is
  answered False before its checksum is looked at. The bech32 branch does not depend on the
  interpreter: \<^verbatim>\<open>decode\<close> always returns.
\<close>

lemma convertbits_returns:
  assumes t: "0 < t"
  shows "\<exists>r. convertbits data f t pad = Returns r"
proof (cases "list_all (fits f) data")
  case False
  then show ?thesis
    using t by (simp add: convertbits_def convertbits_for_unfit [OF t])
next
  case True
  show ?thesis
    using t by (simp add: convertbits_def convertbits_for_start [OF t True] Let_def)
qed

lemma bech32_decode_shape:
  "bech32_decode a = (None, None) \<or> (\<exists>h d. bech32_decode a = (Some h, Some d))"
  by (simp add: bech32_decode_def Let_def)

lemma decode_total: "\<exists>r. decode hrp a = Returns r"
proof -
  from bech32_decode_shape [of a] show ?thesis
  proof
    assume "bech32_decode a = (None, None)"
    then show ?thesis by (simp add: decode_def)
  next
    assume "\<exists>h d. bech32_decode a = (Some h, Some d)"
    then obtain h d where hd: "bech32_decode a = (Some h, Some d)" by blast
    obtain r where r: "convertbits (drop 1 d) 5 8 False = Returns r"
      using convertbits_returns [of 8 "drop 1 d" 5 False] by auto
    show ?thesis
    proof (cases d)
      case Nil
      then show ?thesis
        by (simp add: decode_def hd convertbits_nil)
    next
      case (Cons d0 ds)
      with r show ?thesis
        by (simp add: decode_def hd split: option.splits)
    qed
  qed
qed

lemma validate_bech32_total: "\<exists>b. validate_bech32 a hrp = Returns b"
  using decode_total [of hrp a] by (auto simp: validate_bech32_def)

lemma magic_loop_py2:
  "list_all (\<lambda>m. m < 256) ms \<Longrightarrow>
     magic_loop Py2 bs ms
       = Returns (list_ex (\<lambda>m. case bs of [] \<Rightarrow> False | b # _ \<Rightarrow> unat b = m) ms)"
  by (induction ms) (simp_all add: startswith_chr_def)

lemma decode_base58_py2_shape:
  "(\<exists>bs. decode_base58 Py2 a len = Returns bs) \<or> decode_base58 Py2 a len = Raises ValueError"
  using decode_loop_shape [of 0 a] by (auto simp: decode_base58_def)

lemma validate_base58_py2_total:
  assumes "list_all (\<lambda>m. m < 256) ms"
  shows "\<exists>b. validate_base58 Py2 H a ms = Returns b"
  using decode_base58_py2_shape [of a 25]
  by (auto simp: validate_base58_def Let_def magic_loop_py2 [OF assms])

lemma validate_py2_total: "\<exists>b. validate Py2 H a testnet = Returns b"
proof -
  have "\<exists>b. validate_base58 Py2 H a [111, 196] = Returns b"
    and "\<exists>b. validate_base58 Py2 H a [0, 5] = Returns b"
    by (rule validate_base58_py2_total, simp)+
  with validate_bech32_total [of a "''tb''"] validate_bech32_total [of a "''bc''"]
  show ?thesis
    by (cases testnet) (simp_all add: validate_def)
qed

lemma str_index_member: "c \<in> set xs \<Longrightarrow> \<exists>i. str_index xs c = Some i"
  by (induction xs) auto

lemma decode_loop_valid:
  "list_all (\<lambda>c. c \<in> set digits58) s \<Longrightarrow> \<exists>n. decode_loop k s = Returns n"
proof (induction s arbitrary: k)
  case Nil
  then show ?case by simp
next
  case (Cons c cs)
  then obtain i where "str_index digits58 c = Some i"
    using str_index_member [of c digits58] by auto
  with Cons show ?case by simp
qed

lemma be_digits_mod: "be_digits len n = be_digits len (n mod 256 ^ len)"
proof (induction len arbitrary: n)
  case 0
  then show ?case by simp
next
  case (Suc k)
  have "n mod 256 ^ Suc k div 256 = n div 256 mod 256 ^ k"
    by (simp add: div_mod_decomp mod_mult2_eq)
  moreover have "n mod 256 ^ Suc k mod 256 = n mod 256"
    by (simp add: mod_mod_cancel)
  ultimately show ?case
    using Suc [of "n div 256"] by simp
qed

lemma decode_base58_py2_truncates:
  "decode_loop 0 text = Returns n \<Longrightarrow>
     decode_base58 Py2 text len = Returns (be_digits len (n mod 256 ^ len))"
  using be_digits_mod [of len n] by (simp add: decode_base58_def long_to_bytes_big)

lemma validate_base58_py2_magic:
  assumes "27 \<le> length a" and "length a \<le> 35"
    and "decode_base58 Py2 a 25 = Returns (b # bs)"
    and "unat b \<noteq> m1" and "unat b \<noteq> m2" and "m1 < 256" and "m2 < 256"
  shows "validate_base58 Py2 H a [m1, m2] = Returns False"
  using assms by (simp add: validate_base58_def startswith_chr_def)

end
